theory Spec2Isabelle
  imports Main "HOL-Library.AList"
begin

section \<open>The data of \<open>src/mapView.ts\<close>\<close>

text \<open>
  The view keeps a committed \<open>MapState\<close> object, a drawing surface (a Leaflet map) and the
  map of drawn markers. Objects that the code shares and mutates in place (the \<open>MapState\<close>
  objects: \<open>this.state\<close> and \<open>this.defaultState\<close> start as the same object, the tag box
  handler writes into the committed object and passes that very object on) live in an explicit
  store; \<open>this.state\<close> is an address into it.

  Coordinates are carried around and never computed with, and a zoom level is only ever
  compared with the ends of the zoom range: they are integers here, coordinates in millionths
  of a degree. A version is a JavaScript number that only ever holds \<open>0\<close>, \<open>100\<close> or a successor of
  one of them; it is an unbounded integer here.

  Left out: the widgets that only gather input (the quick-add dropdown, which ends in the
  tag box handler; the Fit and Set-as-Default buttons), the context menus, \<open>goToMarker\<close> and
  \<open>getAllTagNames\<close>. The view is taken from the moment \<open>onOpen\<close> has built the surface and
  the tag box.
\<close>

type_synonym LatLng = "int \<times> int"

type_synonym ref = nat

type_synonym handle = nat

record MapState =
  mapZoom :: int
  mapCenter :: LatLng
  tags :: "string list"
  version :: int

record TFile =
  path :: string
  name :: string

text \<open>The host's metadata cache: \<open>fileCache.tags\<close> may be undefined, and each entry has a \<open>tag\<close>.\<close>

record TagCache =
  tag :: string

record CachedMetadata =
  cache_tags :: "TagCache list option"

text \<open>
  What a rejected promise or a thrown exception carries. \<open>TypeError\<close> is the one the code
  itself can raise: a method call on an undefined \<open>mapMarker\<close>.
\<close>

datatype error = Rejected string | TypeError

text \<open>
  The host application, as far as \<open>getFileListByQuery\<close> calls it: \<open>app.vault.getFiles()\<close>
  and \<open>app.metadataCache.getFileCache(file)\<close> (which returns null for a file it does not know).
  Either call may throw.
\<close>

record App =
  vault_getFiles :: "error + TFile list"
  metadataCache_getFileCache :: "TFile \<Rightarrow> error + CachedMetadata option"

section \<open>The query: \<open>getFileListByQuery\<close>\<close>

text \<open>\<open>Array.prototype.indexOf\<close>: the first position of an element, \<open>-1\<close> when it is absent.\<close>

fun indexOf :: "'a list \<Rightarrow> 'a \<Rightarrow> int" where
  "indexOf [] x = - 1"
| "indexOf (y # ys) x =
     (if y = x then 0 else (let i = indexOf ys x in if i < 0 then - 1 else i + 1))"

text \<open>\<open>Array.prototype.some\<close>.\<close>

fun some :: "('a \<Rightarrow> bool) \<Rightarrow> 'a list \<Rightarrow> bool" where
  "some p [] = False"
| "some p (x # xs) = (if p x then True else some p xs)"

text \<open>
  The body of the \<open>for (const file of allFiles)\<close> loop, lines 243 to 257, with \<open>results\<close> as
  the accumulator. The cache is only consulted under a non-empty filter.
\<close>

fun query_loop :: "App \<Rightarrow> string list \<Rightarrow> TFile list \<Rightarrow> TFile list \<Rightarrow> error + TFile list" where
  "query_loop app tgs [] results = Inr results"
| "query_loop app tgs (file # rest) results =
     (if length tgs > 0 then
        (case metadataCache_getFileCache app file of
           Inl e \<Rightarrow> Inl e
         | Inr fileCache \<Rightarrow>
             (let match =
                (case fileCache of
                   None \<Rightarrow> False
                 | Some fc \<Rightarrow>
                     (case cache_tags fc of
                        None \<Rightarrow> False
                      | Some ts \<Rightarrow> some (\<lambda>tagInFile. indexOf tgs (tag tagInFile) > - 1) ts))
              in query_loop app tgs rest (if match then results @ [file] else results)))
      else query_loop app tgs rest (results @ [file]))"

definition getFileListByQuery :: "App \<Rightarrow> string list \<Rightarrow> error + TFile list" where
  "getFileListByQuery app tgs =
     (case vault_getFiles app of
        Inl e \<Rightarrow> Inl e
      | Inr allFiles \<Rightarrow> query_loop app tgs allFiles [])"

text \<open>The tags a cache answer lists for a file: none when there is no entry or no \<open>tags\<close> field.\<close>

definition listed_tags :: "CachedMetadata option \<Rightarrow> string list" where
  "listed_tags fileCache =
     (case fileCache of
        None \<Rightarrow> []
      | Some fc \<Rightarrow> (case cache_tags fc of None \<Rightarrow> [] | Some ts \<Rightarrow> map tag ts))"

text \<open>A host that answers: the vault lists \<open>files\<close>, and the cache answers \<open>cache f\<close> for each.\<close>

definition host_answers :: "App \<Rightarrow> TFile list \<Rightarrow> (TFile \<Rightarrow> CachedMetadata option) \<Rightarrow> bool" where
  "host_answers app files cache \<longleftrightarrow>
     vault_getFiles app = Inr files \<and>
     (\<forall>f \<in> set files. metadataCache_getFileCache app f = Inr (cache f))"

section \<open>Markers, the drawing surface and the view\<close>

text \<open>
  Modelled from the spec: the type \<open>FileMarker\<close>, declared in \<open>src/markers.ts\<close> (the
  marker descriptor of the data model: identity, location, owning document, optional offset
  in the document, optional icon, rendered handle). The fields are those that \<open>mapView.ts\<close>
  reads and writes; \<open>marker_id\<close> and \<open>marker_file\<close> are its \<open>id\<close> and \<open>file\<close>. \<open>mapMarker\<close> is
  the live Leaflet marker, absent until the marker is drawn; an absent \<open>icon\<close> stands for
  \<open>leaflet.Icon.Default\<close>.
\<close>

record FileMarker =
  marker_id :: string
  marker_file :: TFile
  location :: LatLng
  fileLocation :: "nat option"
  icon :: "string option"
  mapMarker :: "handle option"

text \<open>
  \<open>MarkersMap\<close> is a JavaScript \<open>Map\<close> from marker id to \<open>FileMarker\<close>: an association list in
  insertion order. \<open>has\<close>/\<open>get\<close> are \<open>map_of\<close>, \<open>set\<close> is \<open>AList.update\<close> (an existing key keeps
  its place, a new key goes to the end) and \<open>delete\<close> is \<open>AList.delete\<close>.
\<close>

type_synonym MarkersMap = "(string \<times> FileMarker) list"

text \<open>
  The drawing surface is the Leaflet map. What the view does to it is recorded call by call:
  a marker created and added (with its position, icon and tooltip), a marker removed, the
  viewport set, the viewport fitted to a list of positions. Marker objects are told apart by
  a handle, handed out in sequence.

  Of the viewport the surface keeps its zoom, the value of \<open>getZoom()\<close> once the surface has
  come to rest. Leaflet does not take a requested zoom as it is: it limits it to the zoom
  range of the map, which is that of its layers when the map has no bounds of its own.
  \<open>layers_maxZoom\<close> is the upper end of that range; the lower end is Leaflet's default \<open>0\<close>.
  Leaflet also snaps a zoom to a whole number, which a zoom is here from the start. After a
  fit the zoom is one that Leaflet computes from the size of the map: it is not known here
  (\<open>None\<close>). Where the centre of the viewport comes to rest is not kept either: Leaflet
  pans by whole pixels.
\<close>

datatype surface_call =
    AddMarker handle LatLng "string option" string
  | RemoveFrom handle
  | SetView LatLng int
  | FitBounds "LatLng list"

record LeafletMap =
  calls :: "surface_call list"
  layers_maxZoom :: int
  getZoom :: "int option"
  next_handle :: handle

text \<open>\<open>leaflet.marker(location, {icon}).addTo(map).bindTooltip(tooltip)\<close>, line 271.\<close>

definition marker_addTo ::
  "LatLng \<Rightarrow> string option \<Rightarrow> string \<Rightarrow> LeafletMap \<Rightarrow> handle \<times> LeafletMap" where
  "marker_addTo loc ic tooltip mp =
     (next_handle mp,
      mp\<lparr>calls := calls mp @ [AddMarker (next_handle mp) loc ic tooltip],
         next_handle := Suc (next_handle mp)\<rparr>)"

definition removeFrom :: "handle \<Rightarrow> LeafletMap \<Rightarrow> LeafletMap" where
  "removeFrom h mp = mp\<lparr>calls := calls mp @ [RemoveFrom h]\<rparr>"

text \<open>The zoom that the surface makes of a requested one.\<close>

definition limitZoom :: "LeafletMap \<Rightarrow> int \<Rightarrow> int" where
  "limitZoom mp zoom = max 0 (min (layers_maxZoom mp) zoom)"

definition setView :: "LatLng \<Rightarrow> int \<Rightarrow> LeafletMap \<Rightarrow> LeafletMap" where
  "setView center zoom mp =
     mp\<lparr>calls := calls mp @ [SetView center zoom], getZoom := Some (limitZoom mp zoom)\<rparr>"

definition fitBounds :: "LatLng list \<Rightarrow> LeafletMap \<Rightarrow> LeafletMap" where
  "fitBounds locations mp = mp\<lparr>calls := calls mp @ [FitBounds locations], getZoom := None\<rparr>"

text \<open>How often a marker object has been removed from the surface, and how often fitted.\<close>

definition removals :: "LeafletMap \<Rightarrow> handle \<Rightarrow> nat" where
  "removals mp h = count_list (calls mp) (RemoveFrom h)"



text \<open>
  The fields of the settings (\<open>src/settings.ts\<close>) that the view reads, and the constants of
  \<open>src/consts.ts\<close> that it uses. Both files are not at hand; settings and constants are
  parameters of the view.
\<close>

record PluginSettings =
  defaultZoom :: "int option"
  defaultMapCenter :: "LatLng option"
  defaultTags :: "string list option"
  zoomOnGoFromNote :: int
  autoZoom :: bool

record Consts =
  DEFAULT_ZOOM :: int
  DEFAULT_CENTER :: LatLng
  DEFAULT_TAGS :: "string list"

text \<open>
  The view. \<open>store\<close> holds the \<open>MapState\<close> objects, \<open>state\<close> and \<open>defaultState\<close> are addresses
  into it; the three \<open>display_\<close> fields are \<open>this.display.map\<close>, \<open>this.display.markers\<close> and the
  text of \<open>this.display.tagsBox\<close>.
\<close>

record MapView =
  settings :: PluginSettings
  store :: "MapState list"
  state :: ref
  defaultState :: ref
  display_map :: LeafletMap
  display_markers :: MarkersMap
  display_tagsBox :: string

definition deref :: "MapView \<Rightarrow> ref \<Rightarrow> MapState" where
  "deref v r = store v ! r"

text \<open>A new object: it gets the next free address. Addresses only ever come from here.\<close>

definition alloc :: "MapState \<Rightarrow> MapView \<Rightarrow> ref \<times> MapView" where
  "alloc s v = (length (store v), v\<lparr>store := store v @ [s]\<rparr>)"

text \<open>\<open>this.settings.defaultZoom || consts.DEFAULT_ZOOM\<close>: undefined and \<open>0\<close> are both falsy.\<close>

definition zoom_or :: "int option \<Rightarrow> int \<Rightarrow> int" where
  "zoom_or z d = (case z of None \<Rightarrow> d | Some n \<Rightarrow> if n = 0 then d else n)"

definition value_or :: "'a option \<Rightarrow> 'a \<Rightarrow> 'a" where
  "value_or x d = (case x of None \<Rightarrow> d | Some y \<Rightarrow> y)"

definition default_MapState :: "PluginSettings \<Rightarrow> Consts \<Rightarrow> int \<Rightarrow> MapState" where
  "default_MapState stg k ver =
     \<lparr>mapZoom = zoom_or (defaultZoom stg) (DEFAULT_ZOOM k),
      mapCenter = value_or (defaultMapCenter stg) (DEFAULT_CENTER k),
      tags = value_or (defaultTags stg) (DEFAULT_TAGS k),
      version = ver\<rparr>"

text \<open>
  \<open>createMap\<close>: the fresh surface at zoom \<open>13\<close> (lines 153 to 156) with its one tile layer,
  whose \<open>maxZoom\<close> is \<open>20\<close> (lines 162 to 167).
\<close>

definition createMap :: LeafletMap where
  "createMap = \<lparr>calls = [], layers_maxZoom = 20, getZoom = Some 13, next_handle = 0\<rparr>"

text \<open>
  The view once the constructor and \<open>onOpen\<close> have run: the default state at version \<open>0\<close> is
  the one object that both \<open>this.defaultState\<close> and \<open>this.state\<close> refer to.
\<close>

definition constructor :: "PluginSettings \<Rightarrow> Consts \<Rightarrow> MapView" where
  "constructor stg k =
     \<lparr>settings = stg,
      store = [default_MapState stg k 0],
      state = 0,
      defaultState = 0,
      display_map = createMap,
      display_markers = [],
      display_tagsBox = []\<rparr>"

section \<open>Reconciliation: \<open>updateMapMarkers\<close>\<close>

text \<open>
  The first loop, lines 263 to 295. It works on the surface, on \<open>this.display.markers\<close> (from
  which a marker that is kept is deleted) and on the local \<open>newMarkersMap\<close>. The click and
  context-menu handlers it registers on a new marker do not touch the view until the user
  acts, and are left out.
\<close>

fun claim_or_create ::
  "FileMarker list \<Rightarrow> LeafletMap \<Rightarrow> MarkersMap \<Rightarrow> MarkersMap \<Rightarrow> LeafletMap \<times> MarkersMap \<times> MarkersMap" where
  "claim_or_create [] mp drawn newMarkersMap = (mp, drawn, newMarkersMap)"
| "claim_or_create (marker # rest) mp drawn newMarkersMap =
     (case map_of drawn (marker_id marker) of
        Some existing \<Rightarrow>
          claim_or_create rest mp
            (AList.delete (marker_id marker) drawn)
            (AList.update (marker_id marker) existing newMarkersMap)
      | None \<Rightarrow>
          (case marker_addTo (location marker) (icon marker) (name (marker_file marker)) mp of
             (h, mp') \<Rightarrow>
               claim_or_create rest mp' drawn
                 (AList.update (marker_id marker) (marker\<lparr>mapMarker := Some h\<rparr>) newMarkersMap)))"

text \<open>
  The second loop, lines 296 to 298: every marker still in \<open>this.display.markers\<close> is removed
  from the surface. \<open>value.mapMarker.removeFrom\<close> on a marker without \<open>mapMarker\<close> throws.
\<close>

fun remove_stale :: "MarkersMap \<Rightarrow> LeafletMap \<Rightarrow> error option \<times> LeafletMap" where
  "remove_stale [] mp = (None, mp)"
| "remove_stale ((key, val) # rest) mp =
     (case mapMarker val of
        None \<Rightarrow> (Some TypeError, mp)
      | Some h \<Rightarrow> remove_stale rest (removeFrom h mp))"

text \<open>
  The whole method. When the second loop throws, line 299 is not reached and
  \<open>this.display.markers\<close> stays as the first loop left it.
\<close>

definition updateMapMarkers :: "MapView \<Rightarrow> FileMarker list \<Rightarrow> error option \<times> MapView" where
  "updateMapMarkers v newMarkers =
     (case claim_or_create newMarkers (display_map v) (display_markers v) [] of
        (mp, drawn, newMarkersMap) \<Rightarrow>
          (case remove_stale drawn mp of
             (Some e, mp') \<Rightarrow> (Some e, v\<lparr>display_map := mp', display_markers := drawn\<rparr>)
           | (None, mp') \<Rightarrow> (None, v\<lparr>display_map := mp', display_markers := newMarkersMap\<rparr>)))"

text \<open>
  A drawn map in good order: no key twice (it is a \<open>Map\<close>), every marker in it has its
  Leaflet marker, and no two share one.
\<close>

definition drawn_ok :: "MarkersMap \<Rightarrow> bool" where
  "drawn_ok drawn \<longleftrightarrow>
     distinct (map fst drawn) \<and>
     (\<forall>e \<in> set (map snd drawn). mapMarker e \<noteq> None) \<and>
     distinct (map (\<lambda>p. mapMarker (snd p)) drawn)"

text \<open>
  A view in good order: its drawn map is, and every Leaflet marker in it was handed out by
  the surface before.
\<close>

definition view_ok :: "MapView \<Rightarrow> bool" where
  "view_ok v \<longleftrightarrow>
     drawn_ok (display_markers v) \<and>
     (\<forall>p \<in> set (display_markers v). \<forall>h.
        mapMarker (snd p) = Some h \<longrightarrow> h < next_handle (display_map v))"

section \<open>\<open>autoFitMapToMarkers\<close>\<close>

definition autoFitMapToMarkers :: "MapView \<Rightarrow> MapView" where
  "autoFitMapToMarkers v =
     (if length (display_markers v) > 0 then
        v\<lparr>display_map := fitBounds (map (\<lambda>p. location (snd p)) (display_markers v)) (display_map v)\<rparr>
      else v)"

section \<open>The versioned update: \<open>updateMapToState\<close>\<close>

text \<open>\<open>Array.prototype.join(',')\<close> and \<open>String.prototype.split(',')\<close>.\<close>

fun join_comma :: "string list \<Rightarrow> string" where
  "join_comma [] = []"
| "join_comma [t] = t"
| "join_comma (t # u # us) = t @ CHR '','' # join_comma (u # us)"

fun split_comma :: "string \<Rightarrow> string list" where
  "split_comma [] = [[]]"
| "split_comma (c # cs) =
     (if c = CHR '','' then [] # split_comma cs
      else (case split_comma cs of
              [] \<Rightarrow> [[c]]
            | t # ts \<Rightarrow> (c # t) # ts))"

text \<open>
  \<open>updateMapToState\<close> is asynchronous. Up to its \<open>await\<close> (lines 225 and 226) it runs with
  the caller: it reads the tags of the state it was given, queries the files and starts
  \<open>buildMarkers\<close>; nothing is written. What it keeps across the \<open>await\<close> is a \<open>call\<close>: the
  address of the state it was given, the flag, and the files handed to the builder.
\<close>

record call =
  call_state :: ref
  call_autoFit :: bool
  call_files :: "TFile list"

definition updateMapToState_begin :: "App \<Rightarrow> MapView \<Rightarrow> ref \<Rightarrow> bool \<Rightarrow> error + call" where
  "updateMapToState_begin app v r autoFit =
     (case getFileListByQuery app (tags (deref v r)) of
        Inl e \<Rightarrow> Inl e
      | Inr files \<Rightarrow> Inr \<lparr>call_state = r, call_autoFit = autoFit, call_files = files\<rparr>)"

text \<open>
  The rest of the method, lines 226 to 237, runs when \<open>buildMarkers\<close> (of \<open>src/markers.ts\<close>,
  an asynchronous collaborator) settles; its outcome, a rejection or the new markers, is the
  third argument. Other calls and handlers may have run in between, so the view is the one
  found at that moment. The result says whether the method threw, and gives the view it left.
\<close>

definition updateMapToState_resume ::
  "MapView \<Rightarrow> call \<Rightarrow> error + FileMarker list \<Rightarrow> error option \<times> MapView" where
  "updateMapToState_resume v c outcome =
     (case outcome of
        Inl e \<Rightarrow> (Some e, v)
      | Inr newMarkers \<Rightarrow>
          if version (deref v (call_state c)) < version (deref v (state v)) then (None, v)
          else
            (case updateMapMarkers (v\<lparr>state := call_state c\<rparr>) newMarkers of
               (Some e, v1) \<Rightarrow> (Some e, v1)
             | (None, v1) \<Rightarrow>
                 (let st = deref v1 (state v1);
                      v2 = v1\<lparr>display_tagsBox := join_comma (filter (\<lambda>t. length t > 0) (tags st))\<rparr>;
                      v3 = v2\<lparr>display_map := setView (mapCenter st) (mapZoom st) (display_map v2)\<rparr>
                  in (None, if call_autoFit c then autoFitMapToMarkers v3 else v3))))"

text \<open>
  A call from its start to its end with nothing in between: the query, then the builder's
  outcome, then the rest.
\<close>

definition updateMapToState ::
  "App \<Rightarrow> MapView \<Rightarrow> ref \<Rightarrow> bool \<Rightarrow> error + FileMarker list \<Rightarrow> error option \<times> MapView" where
  "updateMapToState app v r autoFit outcome =
     (case updateMapToState_begin app v r autoFit of
        Inl e \<Rightarrow> (Some e, v)
      | Inr c \<Rightarrow> updateMapToState_resume v c outcome)"

text \<open>The version of the committed state.\<close>

definition committed_version :: "MapView \<Rightarrow> int" where
  "committed_version v = version (deref v (state v))"

text \<open>
  Outstanding calls completing one after the other, each with the markers its builder
  produced, in the order of the list.
\<close>

fun complete_all :: "MapView \<Rightarrow> (call \<times> FileMarker list) list \<Rightarrow> MapView" where
  "complete_all v [] = v"
| "complete_all v ((c, newMarkers) # rest) =
     complete_all (snd (updateMapToState_resume v c (Inr newMarkers))) rest"

text \<open>The versions that the states of a list of outstanding calls carry.\<close>

definition issued_versions :: "MapView \<Rightarrow> (call \<times> FileMarker list) list \<Rightarrow> int list" where
  "issued_versions v cs = map (\<lambda>p. version (deref v (call_state (fst p)))) cs"

section \<open>The entry points that request a state\<close>

text \<open>
  Each returns the view as the handler leaves it, with the call it started (or the error
  the query threw). \<open>zoomToLocation\<close>, lines 63 to 71.
\<close>

definition zoomToLocation :: "App \<Rightarrow> MapView \<Rightarrow> LatLng \<Rightarrow> (error + call) \<times> MapView" where
  "zoomToLocation app v loc =
     (case alloc \<lparr>mapZoom = zoomOnGoFromNote (settings v),
                  mapCenter = loc,
                  tags = tags (deref v (state v)),
                  version = version (deref v (state v)) + 1\<rparr> v of
        (newState, v') \<Rightarrow> (updateMapToState_begin app v' newState False, v'))"

text \<open>The Reset button, lines 109 to 117.\<close>

definition goDefault_onClick :: "App \<Rightarrow> Consts \<Rightarrow> MapView \<Rightarrow> (error + call) \<times> MapView" where
  "goDefault_onClick app k v =
     (case alloc (default_MapState (settings v) k (version (deref v (state v)) + 1)) v of
        (newState, v') \<Rightarrow> (updateMapToState_begin app v' newState False, v'))"

text \<open>
  \<open>setState\<close>, lines 50 to 57. The host passes an object of its own (or nothing); the method
  writes the version into that object.
\<close>

definition setState :: "App \<Rightarrow> MapView \<Rightarrow> ref option \<Rightarrow> (error + call) option \<times> MapView" where
  "setState app v given =
     (case given of
        None \<Rightarrow> (None, v)
      | Some r \<Rightarrow>
          (let v' = v\<lparr>store := (store v)[r := (deref v r)\<lparr>version := 100\<rparr>]\<rparr>
           in (Some (updateMapToState_begin app v' r False), v')))"

text \<open>
  The tag box handler, lines 87 to 90: it writes the parsed tags into the committed object
  and passes that object on.
\<close>

definition tagsBox_onChange :: "App \<Rightarrow> MapView \<Rightarrow> string \<Rightarrow> (error + call) \<times> MapView" where
  "tagsBox_onChange app v tagsBox =
     (let v' = v\<lparr>store := (store v)[state v :=
                  (deref v (state v))\<lparr>tags := filter (\<lambda>t. length t > 0) (split_comma tagsBox)\<rparr>]\<rparr>
      in (updateMapToState_begin app v' (state v') (autoZoom (settings v')), v'))"

text \<open>The first update, when the surface is ready, lines 214 to 218.\<close>

definition whenReady :: "App \<Rightarrow> MapView \<Rightarrow> error + call" where
  "whenReady app v =
     updateMapToState_begin app v (defaultState v) (zoom_or (defaultZoom (settings v)) 0 = 0)"

text \<open>
  The \<open>zoomend\<close> and \<open>moveend\<close> handlers, lines 176 to 181. Leaflet fires them when the
  viewport has moved, after an animation if there is one, also when the user moved it: they
  are steps of their own. They copy what the surface reports at that moment, \<open>getZoom()\<close> and
  \<open>getCenter()\<close>, into the committed object; what it reports is the argument.
\<close>

definition map_on_zoomend :: "MapView \<Rightarrow> int \<Rightarrow> MapView" where
  "map_on_zoomend v zoom =
     v\<lparr>store := (store v)[state v := (deref v (state v))\<lparr>mapZoom := zoom\<rparr>]\<rparr>"

definition map_on_moveend :: "MapView \<Rightarrow> LatLng \<Rightarrow> MapView" where
  "map_on_moveend v center =
     v\<lparr>store := (store v)[state v := (deref v (state v))\<lparr>mapCenter := center\<rparr>]\<rparr>"

text \<open>A started call whose builder resolves with \<open>newMarkers\<close> before anything else happens.\<close>

fun resolved :: "(error + call) \<times> MapView \<Rightarrow> FileMarker list \<Rightarrow> MapView" where
  "resolved (Inr c, v) newMarkers = snd (updateMapToState_resume v c (Inr newMarkers))"
| "resolved (Inl e, v) newMarkers = v"

fun restored :: "(error + call) option \<times> MapView \<Rightarrow> FileMarker list \<Rightarrow> MapView" where
  "restored (Some started, v) newMarkers = resolved (started, v) newMarkers"
| "restored (None, v) newMarkers = v"

section \<open>A small vault\<close>

text \<open>
  Three notes: one tagged \<open>#x\<close>, one the cache has no entry for, one whose entry lists no
  tags.
\<close>

definition note_x :: TFile where
  "note_x = \<lparr>path = ''notes/x.md'', name = ''x.md''\<rparr>"

definition note_bare :: TFile where
  "note_bare = \<lparr>path = ''notes/bare.md'', name = ''bare.md''\<rparr>"

definition note_blank :: TFile where
  "note_blank = \<lparr>path = ''notes/blank.md'', name = ''blank.md''\<rparr>"

definition ex_cache :: "TFile \<Rightarrow> CachedMetadata option" where
  "ex_cache f =
     (if path f = ''notes/x.md'' then Some \<lparr>cache_tags = Some [\<lparr>tag = ''#x''\<rparr>]\<rparr>
      else if path f = ''notes/blank.md'' then Some \<lparr>cache_tags = Some []\<rparr>
      else None)"

definition ex_app :: App where
  "ex_app =
     \<lparr>vault_getFiles = Inr [note_x, note_bare, note_blank],
      metadataCache_getFileCache = (\<lambda>f. Inr (ex_cache f))\<rparr>"

section \<open>Views and runs used as examples\<close>

definition ex_settings :: PluginSettings where
  "ex_settings =
     \<lparr>defaultZoom = None, defaultMapCenter = None, defaultTags = None,
      zoomOnGoFromNote = 15, autoZoom = False\<rparr>"

definition ex_consts :: Consts where
  "ex_consts = \<lparr>DEFAULT_ZOOM = 1, DEFAULT_CENTER = (40731253, - 73996139), DEFAULT_TAGS = []\<rparr>"

text \<open>The view as it opens on the small vault.\<close>

definition opened :: MapView where
  "opened = constructor ex_settings ex_consts"

text \<open>
  The host restores a state: it hands \<open>setState\<close> a new object of its own, here one that
  carries version \<open>7\<close> from an earlier session.
\<close>

definition host_state :: "string list \<Rightarrow> MapState" where
  "host_state tgs = \<lparr>mapZoom = 4, mapCenter = (48858370, 2294481), tags = tgs, version = 7\<rparr>"

definition host_setState :: "MapView \<Rightarrow> MapState \<Rightarrow> (error + call) option \<times> MapView" where
  "host_setState v s = (case alloc s v of (r, v') \<Rightarrow> setState ex_app v' (Some r))"

text \<open>
  A restore that completes, then a zoom to a location that completes, then a second restore,
  still outstanding.
\<close>

definition after_restore :: MapView where
  "after_restore = restored (host_setState opened (host_state [])) []"

definition after_zoom :: MapView where
  "after_zoom = resolved (zoomToLocation ex_app after_restore (51500729, - 124625)) []"

definition second_restore :: "(error + call) option \<times> MapView" where
  "second_restore = host_setState after_zoom (host_state [''#x''])"

definition restore_call :: call where
  "restore_call = \<lparr>call_state = 3, call_autoFit = False, call_files = [note_x]\<rparr>"

text \<open>A restore that completes, and right after it another one, still outstanding.\<close>

definition twice_restore :: "(error + call) option \<times> MapView" where
  "twice_restore = host_setState after_restore (host_state [''#x''])"

definition again_call :: call where
  "again_call = \<lparr>call_state = 2, call_autoFit = False, call_files = [note_x]\<rparr>"

text \<open>A zoom to a location and a restore, both outstanding on the view that just opened.\<close>

definition slow_zoom :: "(error + call) \<times> MapView" where
  "slow_zoom = zoomToLocation ex_app opened (51500729, - 124625)"

definition zoom_call :: call where
  "zoom_call =
     \<lparr>call_state = 1, call_autoFit = False, call_files = [note_x, note_bare, note_blank]\<rparr>"

definition both_outstanding :: "(error + call) option \<times> MapView" where
  "both_outstanding = host_setState (snd slow_zoom) (host_state [''#x''])"

text \<open>A view with two drawn markers, \<open>A\<close> and \<open>B\<close>.\<close>

definition ex_marker :: "string \<Rightarrow> LatLng \<Rightarrow> handle option \<Rightarrow> FileMarker" where
  "ex_marker i loc h =
     \<lparr>marker_id = i, marker_file = note_x, location = loc, fileLocation = None,
      icon = None, mapMarker = h\<rparr>"

definition ex_view :: MapView where
  "ex_view =
     \<lparr>settings = ex_settings,
      store = [\<lparr>mapZoom = 1, mapCenter = (0, 0), tags = [], version = 0\<rparr>],
      state = 0,
      defaultState = 0,
      display_map =
        \<lparr>calls = [AddMarker 0 (1, 1) None ''x.md'', AddMarker 1 (2, 2) None ''x.md''],
         layers_maxZoom = 20,
         getZoom = Some 1,
         next_handle = 2\<rparr>,
      display_markers =
        [(''A'', ex_marker ''A'' (1, 1) (Some 0)), (''B'', ex_marker ''B'' (2, 2) (Some 1))],
      display_tagsBox = []\<rparr>"





text \<open>A host whose vault throws.\<close>

definition ex_app_down :: App where
  "ex_app_down =
     \<lparr>vault_getFiles = Inl (Rejected ''vault''),
      metadataCache_getFileCache = (\<lambda>f. Inr None)\<rparr>"

text \<open>
  Two edits of the tag box in a row, \<open>#x\<close> and then the empty text, and their two calls
  completing in the opposite order: the builder of the second edit is done first.
\<close>

definition first_edit :: "(error + call) \<times> MapView" where
  "first_edit = tagsBox_onChange ex_app opened ''#x''"

definition second_edit :: "(error + call) \<times> MapView" where
  "second_edit = tagsBox_onChange ex_app (snd first_edit) []"

definition first_edit_call :: call where
  "first_edit_call = \<lparr>call_state = 0, call_autoFit = False, call_files = [note_x]\<rparr>"

definition second_edit_call :: call where
  "second_edit_call =
     \<lparr>call_state = 0, call_autoFit = False, call_files = [note_x, note_bare, note_blank]\<rparr>"

definition edits_crossed :: MapView where
  "edits_crossed =
     complete_all (snd second_edit)
       [(second_edit_call,
           [ex_marker ''x'' (1, 1) None, ex_marker ''bare'' (2, 2) None,
            ex_marker ''blank'' (3, 3) None]),
        (first_edit_call, [ex_marker ''x'' (1, 1) None])]"

section \<open>Facts about the query\<close>

lemma indexOf_nonneg_or_minus1: "indexOf xs x = - 1 \<or> 0 \<le> indexOf xs x"
  by (induction xs) (auto simp: Let_def)

lemma indexOf_found: "indexOf xs x > - 1 \<longleftrightarrow> x \<in> set xs"
proof (induction xs)
  case Nil
  show ?case by simp
next
  case (Cons y ys)
  have "indexOf ys x = - 1 \<or> 0 \<le> indexOf ys x" by (rule indexOf_nonneg_or_minus1)
  with Cons show ?case by (auto simp: Let_def)
qed

lemma some_iff: "some p xs \<longleftrightarrow> (\<exists>x \<in> set xs. p x)"
  by (induction xs) auto

lemma match_iff:
  "(case fileCache of
      None \<Rightarrow> False
    | Some fc \<Rightarrow>
        (case cache_tags fc of
           None \<Rightarrow> False
         | Some ts \<Rightarrow> some (\<lambda>tagInFile. indexOf tgs (tag tagInFile) > - 1) ts))
   \<longleftrightarrow> (\<exists>t \<in> set (listed_tags fileCache). t \<in> set tgs)"
  by (auto simp: listed_tags_def some_iff indexOf_found split: option.splits)

lemma query_loop_empty_filter: "query_loop app [] files results = Inr (results @ files)"
  by (induction files arbitrary: results) simp_all

lemma query_loop_filter:
  assumes "tgs \<noteq> []"
    and "\<forall>f \<in> set files. metadataCache_getFileCache app f = Inr (cache f)"
  shows "query_loop app tgs files results =
           Inr (results @ filter (\<lambda>f. \<exists>t \<in> set (listed_tags (cache f)). t \<in> set tgs) files)"
  using assms(2)
proof (induction files arbitrary: results)
  case Nil
  show ?case by simp
next
  case (Cons f rest)
  from Cons.prems have c: "metadataCache_getFileCache app f = Inr (cache f)"
    and r: "\<forall>g \<in> set rest. metadataCache_getFileCache app g = Inr (cache g)"
    by simp_all
  from assms(1) have n: "length tgs > 0" by simp
  show ?case
    using n c Cons.IH [OF r] by (simp add: match_iff Let_def)
qed

lemma ex_host: "host_answers ex_app [note_x, note_bare, note_blank] ex_cache"
  by (simp add: host_answers_def ex_app_def)

text \<open>
  C7. When the host answers, \<open>getFileListByQuery\<close> returns all files of the vault for the
  empty filter; for a non-empty filter it returns, in the vault's order, exactly the files of
  which at least one listed tag is among the requested tags.
\<close>

theorem getFileListByQuery_or_match:
  "host_answers app files cache \<Longrightarrow>
     getFileListByQuery app [] = Inr files \<and>
     (tgs \<noteq> [] \<longrightarrow>
        getFileListByQuery app tgs =
          Inr (filter (\<lambda>f. \<exists>t \<in> set (listed_tags (cache f)). t \<in> set tgs) files))"
  using query_loop_filter [of tgs files app cache "[]"]
  by (simp add: host_answers_def getFileListByQuery_def query_loop_empty_filter)

text \<open>
  The note tagged \<open>#x\<close> is returned for the filters \<open>[#x, #y]\<close>, \<open>[#x]\<close> and \<open>[]\<close>, and
  not for \<open>[#y]\<close>.
\<close>

theorem getFileListByQuery_or_match_witness:
  "host_answers ex_app [note_x, note_bare, note_blank] ex_cache \<and>
   getFileListByQuery ex_app [] = Inr [note_x, note_bare, note_blank] \<and>
   getFileListByQuery ex_app [''#x'', ''#y''] = Inr [note_x] \<and>
   getFileListByQuery ex_app [''#x''] = Inr [note_x] \<and>
   getFileListByQuery ex_app [''#y''] = Inr []"
proof -
  note unfold = listed_tags_def ex_cache_def note_x_def note_bare_def note_blank_def
  have "getFileListByQuery ex_app [] = Inr [note_x, note_bare, note_blank]"
    using getFileListByQuery_or_match [OF ex_host] by simp
  moreover have "getFileListByQuery ex_app [''#x'', ''#y''] = Inr [note_x]"
    using getFileListByQuery_or_match [OF ex_host, of "[''#x'', ''#y'']"] by (simp add: unfold)
  moreover have "getFileListByQuery ex_app [''#x''] = Inr [note_x]"
    using getFileListByQuery_or_match [OF ex_host, of "[''#x'']"] by (simp add: unfold)
  moreover have "getFileListByQuery ex_app [''#y''] = Inr []"
    using getFileListByQuery_or_match [OF ex_host, of "[''#y'']"] by (simp add: unfold)
  ultimately show ?thesis using ex_host by blast
qed

text \<open>
  C9. A file without a cache entry, or whose entry has no \<open>tags\<close> or an empty list of them,
  is in no result of a non-empty filter; under the empty filter it is returned like every
  file of the vault.
\<close>

theorem untagged_file_only_unfiltered:
  assumes "host_answers app files cache"
    and "cache f = None \<or> (\<exists>fc. cache f = Some fc \<and> (cache_tags fc = None \<or> cache_tags fc = Some []))"
  shows "(tgs \<noteq> [] \<longrightarrow> (\<exists>fs. getFileListByQuery app tgs = Inr fs \<and> f \<notin> set fs)) \<and>
         (f \<in> set files \<longrightarrow> (\<exists>fs. getFileListByQuery app [] = Inr fs \<and> f \<in> set fs))"
proof -
  from assms(2) have none: "listed_tags (cache f) = []"
    by (auto simp: listed_tags_def)
  have empty: "getFileListByQuery app [] = Inr files"
    using assms(1) by (simp add: host_answers_def getFileListByQuery_def query_loop_empty_filter)
  have filtered: "getFileListByQuery app tgs =
      Inr (filter (\<lambda>f. \<exists>t \<in> set (listed_tags (cache f)). t \<in> set tgs) files)" if "tgs \<noteq> []"
    using assms(1) query_loop_filter [of tgs files app cache "[]"] that
    by (simp add: host_answers_def getFileListByQuery_def)
  show ?thesis using none empty filtered by auto
qed

theorem untagged_file_only_unfiltered_witness:
  "host_answers ex_app [note_x, note_bare, note_blank] ex_cache \<and>
   ex_cache note_bare = None \<and>
   (\<exists>fs. getFileListByQuery ex_app [''#x''] = Inr fs \<and> note_bare \<notin> set fs) \<and>
   (\<exists>fs. getFileListByQuery ex_app [] = Inr fs \<and> note_bare \<in> set fs)"
proof -
  have c: "ex_cache note_bare = None"
    by (simp add: ex_cache_def note_bare_def)
  have "[''#x''] \<noteq> ([] :: string list)" and "note_bare \<in> set [note_x, note_bare, note_blank]"
    by simp_all
  with untagged_file_only_unfiltered [OF ex_host, of note_bare "[''#x'']"] c ex_host
  show ?thesis by blast
qed

section \<open>Facts about reconciliation\<close>

lemma claim_or_create_calls:
  "claim_or_create ms mp drawn acc = (mp', drawn', acc') \<Longrightarrow>
     \<exists>adds. calls mp' = calls mp @ adds \<and> getZoom mp' = getZoom mp \<and>
       layers_maxZoom mp' = layers_maxZoom mp \<and>
       (\<forall>c \<in> set adds. \<exists>h l i t. c = AddMarker h l i t)"
proof (induction ms arbitrary: mp drawn acc)
  case Nil
  then show ?case by simp
next
  case (Cons m rest)
  show ?case
  proof (cases "map_of drawn (marker_id m)")
    case (Some existing)
    with Cons.prems Cons.IH show ?thesis by simp
  next
    case None
    let ?mp1 = "snd (marker_addTo (location m) (icon m) (name (marker_file m)) mp)"
    from None Cons.prems obtain d a where
      "claim_or_create rest ?mp1 d a = (mp', drawn', acc')"
      by (simp add: marker_addTo_def)
    from Cons.IH [OF this] obtain adds where
      a: "calls mp' = calls ?mp1 @ adds" "getZoom mp' = getZoom ?mp1"
         "layers_maxZoom mp' = layers_maxZoom ?mp1"
         "\<forall>c \<in> set adds. \<exists>h l i t. c = AddMarker h l i t"
      by blast
    have "calls mp' = calls mp @ (AddMarker (next_handle mp) (location m) (icon m) (name (marker_file m)) # adds)"
      using a(1) by (simp add: marker_addTo_def)
    moreover have "getZoom mp' = getZoom mp \<and> layers_maxZoom mp' = layers_maxZoom mp"
      using a(2,3) by (simp add: marker_addTo_def)
    ultimately show ?thesis using a(4)
      by (intro exI [of _ "AddMarker (next_handle mp) (location m) (icon m) (name (marker_file m)) # adds"]) auto
  qed
qed

lemma claim_or_create_drawn:
  "claim_or_create ms mp drawn acc = (mp', drawn', acc') \<Longrightarrow>
     drawn' = filter (\<lambda>p. fst p \<notin> marker_id ` set ms) drawn"
proof (induction ms arbitrary: mp drawn acc)
  case Nil
  then show ?case by simp
next
  case (Cons m rest)
  show ?case
  proof (cases "map_of drawn (marker_id m)")
    case (Some existing)
    with Cons.prems have
      "claim_or_create rest mp (AList.delete (marker_id m) drawn)
         (AList.update (marker_id m) existing acc) = (mp', drawn', acc')"
      by simp
    from Cons.IH [OF this] show ?thesis
      by (auto simp: AList.delete_eq intro!: filter_cong)
  next
    case None
    then have absent: "marker_id m \<notin> fst ` set drawn"
      by (simp add: map_of_eq_None_iff)
    from None Cons.prems obtain mp1 a where
      "claim_or_create rest mp1 drawn a = (mp', drawn', acc')"
      by (simp add: marker_addTo_def)
    from Cons.IH [OF this] have "drawn' = filter (\<lambda>p. fst p \<notin> marker_id ` set rest) drawn" .
    also have "\<dots> = filter (\<lambda>p. fst p \<notin> marker_id ` set (m # rest)) drawn"
    proof (rule filter_cong)
      fix p assume "p \<in> set drawn"
      with absent have "fst p \<noteq> marker_id m" by force
      then show "(fst p \<notin> marker_id ` set rest) = (fst p \<notin> marker_id ` set (m # rest))"
        by auto
    qed simp
    finally show ?thesis .
  qed
qed

lemma claim_or_create_keys:
  "claim_or_create ms mp drawn acc = (mp', drawn', acc') \<Longrightarrow>
     fst ` set acc' = fst ` set acc \<union> marker_id ` set ms \<and>
     (distinct (map fst acc) \<longrightarrow> distinct (map fst acc'))"
proof (induction ms arbitrary: mp drawn acc)
  case Nil
  then show ?case by simp
next
  case (Cons m rest)
  from Cons.prems obtain mp1 d1 e where
    "claim_or_create rest mp1 d1 (AList.update (marker_id m) e acc) = (mp', drawn', acc')"
    by (auto simp: marker_addTo_def split: option.splits)
  from Cons.IH [OF this] show ?case
    by (auto simp: AList.dom_update AList.distinct_update)
qed

lemma claim_or_create_other:
  "claim_or_create ms mp drawn acc = (mp', drawn', acc') \<Longrightarrow> k \<notin> marker_id ` set ms \<Longrightarrow>
     map_of acc' k = map_of acc k"
proof (induction ms arbitrary: mp drawn acc)
  case Nil
  then show ?case by simp
next
  case (Cons m rest)
  from Cons.prems(1) obtain mp1 d1 e where
    "claim_or_create rest mp1 d1 (AList.update (marker_id m) e acc) = (mp', drawn', acc')"
    by (auto simp: marker_addTo_def split: option.splits)
  from Cons.IH [OF this] Cons.prems(2) show ?case
    by (simp add: AList.update_conv')
qed

lemma claim_or_create_kept:
  "claim_or_create ms mp drawn acc = (mp', drawn', acc') \<Longrightarrow>
   distinct (map marker_id ms) \<Longrightarrow> m \<in> set ms \<Longrightarrow> map_of drawn (marker_id m) = Some e \<Longrightarrow>
     map_of acc' (marker_id m) = Some e"
proof (induction ms arbitrary: mp drawn acc)
  case Nil
  then show ?case by simp
next
  case (Cons x rest)
  show ?case
  proof (cases "marker_id x = marker_id m")
    case True
    with Cons.prems(1,4) have run:
      "claim_or_create rest mp (AList.delete (marker_id m) drawn)
         (AList.update (marker_id m) e acc) = (mp', drawn', acc')"
      by simp
    from True Cons.prems(2) have "marker_id m \<notin> marker_id ` set rest" by auto
    from claim_or_create_other [OF run this] show ?thesis
      by (simp add: AList.update_conv')
  next
    case False
    with Cons.prems(3) have in_rest: "m \<in> set rest" by auto
    from Cons.prems(2) have d: "distinct (map marker_id rest)" by simp
    show ?thesis
    proof (cases "map_of drawn (marker_id x)")
      case (Some existing)
      with Cons.prems(1) have run:
        "claim_or_create rest mp (AList.delete (marker_id x) drawn)
           (AList.update (marker_id x) existing acc) = (mp', drawn', acc')"
        by simp
      have "map_of (AList.delete (marker_id x) drawn) (marker_id m) = Some e"
        using False Cons.prems(4) by (simp add: AList.delete_conv')
      from Cons.IH [OF run d in_rest this] show ?thesis .
    next
      case None
      with Cons.prems(1) obtain mp1 a where
        run: "claim_or_create rest mp1 drawn a = (mp', drawn', acc')"
        by (simp add: marker_addTo_def)
      from Cons.IH [OF run d in_rest Cons.prems(4)] show ?thesis .
    qed
  qed
qed

lemma remove_stale_all:
  "\<forall>p \<in> set drawn. mapMarker (snd p) \<noteq> None \<Longrightarrow>
     remove_stale drawn mp =
       (None, mp\<lparr>calls := calls mp @ map (\<lambda>p. RemoveFrom (the (mapMarker (snd p)))) drawn\<rparr>)"
proof (induction drawn arbitrary: mp)
  case Nil
  show ?case by simp
next
  case (Cons p rest)
  obtain k val where p: "p = (k, val)" by (cases p)
  from Cons.prems p obtain h where h: "mapMarker val = Some h" by auto
  from Cons.prems have "\<forall>q \<in> set rest. mapMarker (snd q) \<noteq> None" by simp
  from Cons.IH [OF this] show ?case
    using p h by (simp add: removeFrom_def)
qed

lemma count_removed_once:
  "\<forall>p \<in> set xs. mapMarker (snd p) \<noteq> None \<Longrightarrow>
   distinct (map (\<lambda>p. mapMarker (snd p)) xs) \<Longrightarrow> (k, e) \<in> set xs \<Longrightarrow> mapMarker e = Some h \<Longrightarrow>
     count_list (map (\<lambda>p. RemoveFrom (the (mapMarker (snd p)))) xs) (RemoveFrom h) = 1"
proof (induction xs)
  case Nil
  then show ?case by simp
next
  case (Cons p rest)
  show ?case
  proof (cases "mapMarker (snd p) = Some h")
    case True
    with Cons.prems(2) have "\<forall>q \<in> set rest. mapMarker (snd q) \<noteq> Some h"
      by (auto simp: image_iff) 
    with Cons.prems(1) have "\<forall>q \<in> set rest. the (mapMarker (snd q)) \<noteq> h"
      by fastforce
    then have "RemoveFrom h \<notin> set (map (\<lambda>p. RemoveFrom (the (mapMarker (snd p)))) rest)"
      by auto
    then have "count_list (map (\<lambda>p. RemoveFrom (the (mapMarker (snd p)))) rest) (RemoveFrom h) = 0"
      by (rule count_notin)
    with True show ?thesis by simp
  next
    case False
    with Cons.prems(3,4) have "(k, e) \<in> set rest" by auto
    with Cons.IH Cons.prems(1,2) Cons.prems(4) False show ?thesis by auto
  qed
qed

lemma count_not_removed:
  "\<forall>p \<in> set xs. mapMarker (snd p) \<noteq> None \<Longrightarrow>
   \<forall>p \<in> set xs. mapMarker (snd p) \<noteq> Some h \<Longrightarrow>
     count_list (map (\<lambda>p. RemoveFrom (the (mapMarker (snd p)))) xs) (RemoveFrom h) = 0"
  by (rule count_notin) fastforce

lemma updateMapMarkers_result:
  assumes "\<forall>p \<in> set (display_markers v). mapMarker (snd p) \<noteq> None"
  shows "\<exists>mp acc adds.
      claim_or_create ms (display_map v) (display_markers v) [] =
        (mp, filter (\<lambda>p. fst p \<notin> marker_id ` set ms) (display_markers v), acc) \<and>
      calls mp = calls (display_map v) @ adds \<and> getZoom mp = getZoom (display_map v) \<and>
      (\<forall>c \<in> set adds. \<exists>h l i t. c = AddMarker h l i t) \<and>
      updateMapMarkers v ms =
        (None, v\<lparr>display_map := mp\<lparr>calls := calls mp @
                    map (\<lambda>p. RemoveFrom (the (mapMarker (snd p))))
                      (filter (\<lambda>p. fst p \<notin> marker_id ` set ms) (display_markers v))\<rparr>,
                  display_markers := acc\<rparr>)"
proof -
  let ?stale = "filter (\<lambda>p. fst p \<notin> marker_id ` set ms) (display_markers v)"
  obtain mp drawn' acc where
    run: "claim_or_create ms (display_map v) (display_markers v) [] = (mp, drawn', acc)"
    by (cases "claim_or_create ms (display_map v) (display_markers v) []")
  from claim_or_create_drawn [OF run] have d: "drawn' = ?stale" .
  from assms have "\<forall>p \<in> set ?stale. mapMarker (snd p) \<noteq> None" by simp
  from remove_stale_all [OF this] have
    rm: "remove_stale ?stale mp =
           (None, mp\<lparr>calls := calls mp @ map (\<lambda>p. RemoveFrom (the (mapMarker (snd p)))) ?stale\<rparr>)" .
  from claim_or_create_calls [OF run] obtain adds where
    a: "calls mp = calls (display_map v) @ adds" "getZoom mp = getZoom (display_map v)"
       "\<forall>c \<in> set adds. \<exists>h l i t. c = AddMarker h l i t"
    by blast
  have "updateMapMarkers v ms =
        (None, v\<lparr>display_map := mp\<lparr>calls := calls mp @
                    map (\<lambda>p. RemoveFrom (the (mapMarker (snd p)))) ?stale\<rparr>,
                  display_markers := acc\<rparr>)"
    using run d rm by (simp add: updateMapMarkers_def)
  with run d a show ?thesis by blast
qed

lemma set_update_subset: "set (AList.update k x al) \<subseteq> insert (k, x) (set al)"
  by (induction al) auto

lemma claim_or_create_invariant:
  assumes "claim_or_create ms mp drawn acc = (mp', drawn', acc')"
    and "distinct (map fst acc)"
    and "inj_on (\<lambda>p. mapMarker (snd p)) (set drawn \<union> set acc)"
    and "\<forall>p \<in> set drawn \<union> set acc. \<exists>h. mapMarker (snd p) = Some h \<and> h < next_handle mp"
  shows "distinct (map fst acc') \<and>
         inj_on (\<lambda>p. mapMarker (snd p)) (set acc') \<and>
         (\<forall>p \<in> set acc'. \<exists>h. mapMarker (snd p) = Some h \<and> h < next_handle mp')"
  using assms
proof (induction ms arbitrary: mp drawn acc)
  case Nil
  then show ?case by (auto intro: inj_on_subset)
next
  case (Cons m rest)
  show ?case
  proof (cases "map_of drawn (marker_id m)")
    case (Some existing)
    let ?d = "AList.delete (marker_id m) drawn"
    let ?a = "AList.update (marker_id m) existing acc"
    from Some have mem: "(marker_id m, existing) \<in> set drawn" by (rule map_of_SomeD)
    have sub: "set ?d \<union> set ?a \<subseteq> set drawn \<union> set acc"
      using mem set_update_subset [of "marker_id m" existing acc]
      by (auto simp: AList.delete_eq)
    from Some Cons.prems(1) have run: "claim_or_create rest mp ?d ?a = (mp', drawn', acc')"
      by simp
    have 1: "distinct (map fst ?a)"
      using Cons.prems(2) by (rule AList.distinct_update)
    have 2: "inj_on (\<lambda>p. mapMarker (snd p)) (set ?d \<union> set ?a)"
      using Cons.prems(3) sub by (rule inj_on_subset)
    have 3: "\<forall>p \<in> set ?d \<union> set ?a. \<exists>h. mapMarker (snd p) = Some h \<and> h < next_handle mp"
      using Cons.prems(4) sub by blast
    from Cons.IH [OF run 1 2 3] show ?thesis .
  next
    case None
    let ?h = "next_handle mp"
    let ?mp = "mp\<lparr>calls := calls mp @ [AddMarker ?h (location m) (icon m) (name (marker_file m))],
                   next_handle := Suc ?h\<rparr>"
    let ?x = "m\<lparr>mapMarker := Some ?h\<rparr>"
    let ?a = "AList.update (marker_id m) ?x acc"
    from None Cons.prems(1) have run: "claim_or_create rest ?mp drawn ?a = (mp', drawn', acc')"
      by (simp add: marker_addTo_def)
    have sub: "set drawn \<union> set ?a \<subseteq> insert (marker_id m, ?x) (set drawn \<union> set acc)"
      using set_update_subset [of "marker_id m" ?x acc] by auto
    have 1: "distinct (map fst ?a)"
      using Cons.prems(2) by (rule AList.distinct_update)
    have fresh: "Some ?h \<notin> (\<lambda>p. mapMarker (snd p)) ` (set drawn \<union> set acc - {(marker_id m, ?x)})"
    proof
      assume "Some ?h \<in> (\<lambda>p. mapMarker (snd p)) ` (set drawn \<union> set acc - {(marker_id m, ?x)})"
      then obtain p where "p \<in> set drawn \<union> set acc" and p: "mapMarker (snd p) = Some ?h"
        by force
      with Cons.prems(4) obtain h where "mapMarker (snd p) = Some h" and "h < next_handle mp"
        by blast
      with p show False by simp
    qed
    have "inj_on (\<lambda>p. mapMarker (snd p)) (insert (marker_id m, ?x) (set drawn \<union> set acc))"
      using Cons.prems(3) fresh by (simp add: inj_on_insert)
    then have 2: "inj_on (\<lambda>p. mapMarker (snd p)) (set drawn \<union> set ?a)"
      using sub by (rule inj_on_subset)
    have "\<forall>p \<in> insert (marker_id m, ?x) (set drawn \<union> set acc).
            \<exists>h. mapMarker (snd p) = Some h \<and> h < next_handle ?mp"
      using Cons.prems(4) by (auto intro: less_SucI)
    then have 3: "\<forall>p \<in> set drawn \<union> set ?a. \<exists>h. mapMarker (snd p) = Some h \<and> h < next_handle ?mp"
      using sub by blast
    from Cons.IH [OF run 1 2 3] show ?thesis .
  qed
qed

lemma drawn_ok_iff:
  "drawn_ok drawn \<longleftrightarrow>
     distinct (map fst drawn) \<and> (\<forall>p \<in> set drawn. mapMarker (snd p) \<noteq> None) \<and>
     inj_on (\<lambda>p. mapMarker (snd p)) (set drawn)"
proof -
  have "distinct drawn" if "distinct (map fst drawn)"
    using that by (rule distinct_map [THEN iffD1, THEN conjunct1])
  then show ?thesis
    by (auto simp: drawn_ok_def distinct_map)
qed

text \<open>
  Reconciliation keeps a view in good order: the new drawn map has no key twice, and every
  marker in it has a Leaflet marker of its own, either carried over or just handed out.
\<close>

lemma updateMapMarkers_view_ok:
  assumes "view_ok v"
  shows "view_ok (snd (updateMapMarkers v ms))"
proof -
  let ?drawn = "display_markers v"
  let ?stale = "filter (\<lambda>p. fst p \<notin> marker_id ` set ms) ?drawn"
  from assms have ok: "drawn_ok ?drawn"
    and bound: "\<forall>p \<in> set ?drawn. \<forall>h. mapMarker (snd p) = Some h \<longrightarrow> h < next_handle (display_map v)"
    by (simp_all add: view_ok_def)
  from ok have some: "\<forall>p \<in> set ?drawn. mapMarker (snd p) \<noteq> None"
    and inj: "inj_on (\<lambda>p. mapMarker (snd p)) (set ?drawn)"
    by (simp_all add: drawn_ok_iff)
  obtain mp drawn' acc where
    run: "claim_or_create ms (display_map v) ?drawn [] = (mp, drawn', acc)"
    by (cases "claim_or_create ms (display_map v) ?drawn []")
  have d: "drawn' = ?stale" using run by (rule claim_or_create_drawn)
  have "\<forall>p \<in> set ?stale. mapMarker (snd p) \<noteq> None" using some by simp
  from remove_stale_all [OF this, of mp] obtain mp2 where
    rm: "remove_stale ?stale mp = (None, mp2)" and nh: "next_handle mp2 = next_handle mp"
    by simp
  have res: "snd (updateMapMarkers v ms) = v\<lparr>display_map := mp2, display_markers := acc\<rparr>"
    using run d rm by (simp add: updateMapMarkers_def)
  have "\<forall>p \<in> set ?drawn \<union> set []. \<exists>h. mapMarker (snd p) = Some h \<and> h < next_handle (display_map v)"
    using some bound by auto
  with claim_or_create_invariant [OF run, simplified] inj
  have "distinct (map fst acc) \<and> inj_on (\<lambda>p. mapMarker (snd p)) (set acc) \<and>
        (\<forall>p \<in> set acc. \<exists>h. mapMarker (snd p) = Some h \<and> h < next_handle mp)"
    by simp
  then show ?thesis
    unfolding res by (auto simp: view_ok_def drawn_ok_iff nh)
qed

text \<open>
  C4. Identity is preserved. When the new markers have pairwise distinct ids and the drawn
  markers all have their Leaflet marker, \<open>updateMapMarkers\<close> returns normally, and for every
  new marker whose id is in the drawn map the new drawn map holds, under that id, the very
  entry the old one held, Leaflet marker included, whatever the new descriptor's location is.
\<close>

theorem updateMapMarkers_keeps_drawn:
  assumes "\<forall>p \<in> set (display_markers v). mapMarker (snd p) \<noteq> None"
    and "distinct (map marker_id newMarkers)"
    and "m \<in> set newMarkers"
    and "map_of (display_markers v) (marker_id m) = Some e"
  shows "fst (updateMapMarkers v newMarkers) = None \<and>
         map_of (display_markers (snd (updateMapMarkers v newMarkers))) (marker_id m) = Some e"
proof -
  from updateMapMarkers_result [OF assms(1), of newMarkers] obtain mp acc stale where
    run: "claim_or_create newMarkers (display_map v) (display_markers v) [] = (mp, stale, acc)"
    and res: "updateMapMarkers v newMarkers =
        (None, v\<lparr>display_map := mp\<lparr>calls := calls mp @
                    map (\<lambda>p. RemoveFrom (the (mapMarker (snd p)))) stale\<rparr>,
                  display_markers := acc\<rparr>)"
    by blast
  from claim_or_create_kept [OF run assms(2) assms(3) assms(4)]
  have "map_of acc (marker_id m) = Some e" .
  with res show ?thesis by simp
qed

text \<open>
  The drawn marker \<open>A\<close> at \<open>(1, 1)\<close> with Leaflet marker \<open>0\<close> stays as it is when the new list
  has \<open>A\<close> at \<open>(7, 7)\<close>.
\<close>

theorem updateMapMarkers_keeps_drawn_witness:
  "list_all (\<lambda>p. mapMarker (snd p) \<noteq> None) (display_markers ex_view) \<and>
   distinct (map marker_id [ex_marker ''A'' (7, 7) None, ex_marker ''C'' (3, 3) None]) \<and>
   map_of (display_markers ex_view) ''A'' = Some (ex_marker ''A'' (1, 1) (Some 0)) \<and>
   fst (updateMapMarkers ex_view [ex_marker ''A'' (7, 7) None, ex_marker ''C'' (3, 3) None]) = None \<and>
   map_of (display_markers (snd (updateMapMarkers ex_view
       [ex_marker ''A'' (7, 7) None, ex_marker ''C'' (3, 3) None]))) ''A''
     = Some (ex_marker ''A'' (1, 1) (Some 0))"
proof -
  have a: "\<forall>p \<in> set (display_markers ex_view). mapMarker (snd p) \<noteq> None"
    by (simp add: ex_view_def ex_marker_def)
  have b: "distinct (map marker_id [ex_marker ''A'' (7, 7) None, ex_marker ''C'' (3, 3) None])"
    by (simp add: ex_marker_def)
  have c: "ex_marker ''A'' (7, 7) None \<in> set [ex_marker ''A'' (7, 7) None, ex_marker ''C'' (3, 3) None]"
    by simp
  have i: "marker_id (ex_marker ''A'' (7, 7) None) = ''A''"
    by (simp add: ex_marker_def)
  have d: "map_of (display_markers ex_view) (marker_id (ex_marker ''A'' (7, 7) None))
             = Some (ex_marker ''A'' (1, 1) (Some 0))"
    by (simp add: ex_view_def i)
  have a': "list_all (\<lambda>p. mapMarker (snd p) \<noteq> None) (display_markers ex_view)"
    using a by (simp add: list_all_iff)
  from updateMapMarkers_keeps_drawn [OF a b c d] a' b d show ?thesis
    by (simp only: i)
qed

text \<open>
  C5. On a drawn map in good order \<open>updateMapMarkers\<close> returns normally; the keys of the new
  drawn map are exactly the ids of the new markers, none twice; and for every drawn marker
  the number of times its Leaflet marker has been removed from the surface goes up by one
  when its id is not among the new ids, and stays when it is.
\<close>

theorem updateMapMarkers_exact:
  assumes "drawn_ok (display_markers v)"
  shows "fst (updateMapMarkers v newMarkers) = None \<and>
         set (map fst (display_markers (snd (updateMapMarkers v newMarkers))))
           = marker_id ` set newMarkers \<and>
         distinct (map fst (display_markers (snd (updateMapMarkers v newMarkers)))) \<and>
         (\<forall>p \<in> set (display_markers v). \<exists>h. mapMarker (snd p) = Some h \<and>
            removals (display_map (snd (updateMapMarkers v newMarkers))) h =
              removals (display_map v) h + (if fst p \<in> marker_id ` set newMarkers then 0 else 1))"
proof -
  let ?drawn = "display_markers v"
  let ?stale = "filter (\<lambda>p. fst p \<notin> marker_id ` set newMarkers) ?drawn"
  let ?rm = "map (\<lambda>p. RemoveFrom (the (mapMarker (snd p)))) ?stale"
  from assms have some: "\<forall>p \<in> set ?drawn. mapMarker (snd p) \<noteq> None"
    and dist: "distinct (map (\<lambda>p. mapMarker (snd p)) ?drawn)"
    by (simp_all add: drawn_ok_def)
  from updateMapMarkers_result [OF some, of newMarkers] obtain mp acc adds where
    run: "claim_or_create newMarkers (display_map v) ?drawn [] = (mp, ?stale, acc)"
    and calls: "calls mp = calls (display_map v) @ adds"
    and adds: "\<forall>c \<in> set adds. \<exists>h l i t. c = AddMarker h l i t"
    and res: "updateMapMarkers v newMarkers =
        (None, v\<lparr>display_map := mp\<lparr>calls := calls mp @ ?rm\<rparr>, display_markers := acc\<rparr>)"
    by blast
  from claim_or_create_keys [OF run] have
    keys: "fst ` set acc = marker_id ` set newMarkers" "distinct (map fst acc)"
    by simp_all
  have stale_some: "\<forall>p \<in> set ?stale. mapMarker (snd p) \<noteq> None"
    using some by simp
  have stale_dist: "distinct (map (\<lambda>p. mapMarker (snd p)) ?stale)"
    using dist by (rule distinct_map_filter)
  have count: "\<exists>h. mapMarker (snd p) = Some h \<and>
      removals (mp\<lparr>calls := calls mp @ ?rm\<rparr>) h =
        removals (display_map v) h + (if fst p \<in> marker_id ` set newMarkers then 0 else 1)"
    if p: "p \<in> set ?drawn" for p
  proof -
    from some p obtain h where h: "mapMarker (snd p) = Some h" by auto
    have no_add: "count_list adds (RemoveFrom h) = 0"
      using adds by (intro count_notin) auto
    have "count_list ?rm (RemoveFrom h) = (if fst p \<in> marker_id ` set newMarkers then 0 else 1)"
    proof (cases "fst p \<in> marker_id ` set newMarkers")
      case True
      have "\<forall>q \<in> set ?stale. mapMarker (snd q) \<noteq> Some h"
      proof
        fix q assume q: "q \<in> set ?stale"
        with True have "q \<noteq> p" by auto
        moreover from q have "q \<in> set ?drawn" by simp
        ultimately show "mapMarker (snd q) \<noteq> Some h"
          using dist p h by (auto simp: distinct_map inj_on_def)
      qed
      from count_not_removed [OF stale_some this] True show ?thesis by simp
    next
      case False
      with p have "(fst p, snd p) \<in> set ?stale" by simp
      from count_removed_once [OF stale_some stale_dist this h] False show ?thesis by simp
    qed
    with h no_add calls show ?thesis by (simp add: removals_def)
  qed
  from res keys count show ?thesis by simp
qed

text \<open>
  With \<open>A\<close> and \<open>B\<close> drawn and only \<open>A\<close> new, the result is \<open>A\<close> alone, the Leaflet marker of
  \<open>B\<close> has been removed once and that of \<open>A\<close> never.
\<close>

theorem updateMapMarkers_exact_witness:
  "drawn_ok (display_markers ex_view) \<and>
   map fst (display_markers ex_view) = [''A'', ''B''] \<and>
   map fst (display_markers (snd (updateMapMarkers ex_view [ex_marker ''A'' (1, 1) None]))) = [''A''] \<and>
   removals (display_map ex_view) 1 = 0 \<and>
   removals (display_map (snd (updateMapMarkers ex_view [ex_marker ''A'' (1, 1) None]))) 1 = 1 \<and>
   removals (display_map (snd (updateMapMarkers ex_view [ex_marker ''A'' (1, 1) None]))) 0 = 0"
proof -
  have ok: "drawn_ok (display_markers ex_view)"
    by (simp add: drawn_ok_def ex_view_def ex_marker_def)
  have before: "map fst (display_markers ex_view) = [''A'', ''B'']"
    "removals (display_map ex_view) 1 = 0" "removals (display_map ex_view) 0 = 0"
    by (simp_all add: ex_view_def removals_def)
  have ids: "marker_id ` set [ex_marker ''A'' (1, 1) None] = {''A''}"
    by (simp add: ex_marker_def)
  have B: "(''B'', ex_marker ''B'' (2, 2) (Some 1)) \<in> set (display_markers ex_view)"
    and A: "(''A'', ex_marker ''A'' (1, 1) (Some 0)) \<in> set (display_markers ex_view)"
    by (simp_all add: ex_view_def)
  let ?v = "snd (updateMapMarkers ex_view [ex_marker ''A'' (1, 1) None])"
  from updateMapMarkers_exact [OF ok, of "[ex_marker ''A'' (1, 1) None]"] have
    keys: "set (map fst (display_markers ?v)) = {''A''}" "distinct (map fst (display_markers ?v))"
    and rm: "\<forall>p \<in> set (display_markers ex_view). \<exists>h. mapMarker (snd p) = Some h \<and>
        removals (display_map ?v) h =
          removals (display_map ex_view) h + (if fst p \<in> {''A''} then 0 else 1)"
    unfolding ids by blast+
  from rm B before have "removals (display_map ?v) 1 = 1"
    by (fastforce simp: ex_marker_def)
  moreover from rm A before have "removals (display_map ?v) 0 = 0"
    by (fastforce simp: ex_marker_def)
  moreover have "map fst (display_markers ?v) = [''A'']"
    by code_simp
  ultimately show ?thesis using ok before by simp
qed

section \<open>Facts about the versioned update\<close>

lemma updateMapMarkers_display_only:
  "store (snd (updateMapMarkers v ms)) = store v \<and>
   state (snd (updateMapMarkers v ms)) = state v \<and>
   settings (snd (updateMapMarkers v ms)) = settings v \<and>
   defaultState (snd (updateMapMarkers v ms)) = defaultState v"
  by (simp add: updateMapMarkers_def split: prod.splits option.splits)

lemma autoFit_display_only:
  "store (autoFitMapToMarkers v) = store v \<and> state (autoFitMapToMarkers v) = state v"
  by (simp add: autoFitMapToMarkers_def)

lemma resume_rejected: "updateMapToState_resume v c (Inl e) = (Some e, v)"
  by (simp add: updateMapToState_resume_def)

lemma resume_store: "store (snd (updateMapToState_resume v c outcome)) = store v"
proof (cases outcome)
  case (Inl e)
  then show ?thesis by (simp add: updateMapToState_resume_def)
next
  case (Inr ms)
  have "store (snd (updateMapMarkers (v\<lparr>state := call_state c\<rparr>) ms)) = store v"
    using updateMapMarkers_display_only [of "v\<lparr>state := call_state c\<rparr>" ms] by simp
  with Inr show ?thesis
    by (auto simp: updateMapToState_resume_def Let_def autoFit_display_only
          split: prod.splits option.splits)
qed

lemma resume_discards:
  "version (deref v (call_state c)) < committed_version v \<Longrightarrow>
     updateMapToState_resume v c (Inr ms) = (None, v)"
  by (simp add: updateMapToState_resume_def committed_version_def)

lemma resume_commits:
  "\<not> version (deref v (call_state c)) < committed_version v \<Longrightarrow>
     state (snd (updateMapToState_resume v c (Inr ms))) = call_state c"
proof -
  assume a: "\<not> version (deref v (call_state c)) < committed_version v"
  have "state (snd (updateMapMarkers (v\<lparr>state := call_state c\<rparr>) ms)) = call_state c"
    using updateMapMarkers_display_only [of "v\<lparr>state := call_state c\<rparr>" ms] by simp
  with a show ?thesis
    by (auto simp: updateMapToState_resume_def committed_version_def Let_def autoFit_display_only
          split: prod.splits option.splits)
qed

lemma committed_version_cong:
  "store v' = store v \<Longrightarrow> state v' = r \<Longrightarrow> committed_version v' = version (deref v r)"
  by (simp add: committed_version_def deref_def)

lemma resume_version:
  "committed_version (snd (updateMapToState_resume v c (Inr ms))) =
     max (committed_version v) (version (deref v (call_state c)))"
proof (cases "version (deref v (call_state c)) < committed_version v")
  case True
  from resume_discards [OF this] True show ?thesis by simp
next
  case False
  from committed_version_cong [OF resume_store resume_commits [OF False]] False
  show ?thesis by simp
qed

lemma resume_monotone:
  "committed_version v \<le> committed_version (snd (updateMapToState_resume v c outcome))"
proof (cases outcome)
  case (Inl e)
  then show ?thesis by (simp add: updateMapToState_resume_def)
next
  case (Inr ms)
  then show ?thesis by (simp add: resume_version)
qed

lemma issued_versions_store:
  "store v' = store v \<Longrightarrow> issued_versions v' cs = issued_versions v cs"
  by (simp add: issued_versions_def deref_def)

lemma complete_all_max:
  "committed_version (complete_all v cs) =
     Max (insert (committed_version v) (set (issued_versions v cs)))"
proof (induction cs arbitrary: v)
  case Nil
  show ?case by (simp add: issued_versions_def)
next
  case (Cons p rest)
  obtain c ms where p: "p = (c, ms)" by (cases p)
  let ?v1 = "snd (updateMapToState_resume v c (Inr ms))"
  have "committed_version (complete_all v (p # rest)) = committed_version (complete_all ?v1 rest)"
    using p by simp
  also have "\<dots> = Max (insert (committed_version ?v1) (set (issued_versions ?v1 rest)))"
    by (rule Cons.IH)
  also have "issued_versions ?v1 rest = issued_versions v rest"
    by (rule issued_versions_store) (rule resume_store)
  also have "committed_version ?v1 = max (committed_version v) (version (deref v (call_state c)))"
    by (rule resume_version)
  also have "Max (insert (max (committed_version v) (version (deref v (call_state c))))
                 (set (issued_versions v rest)))
             = Max (insert (committed_version v) (set (issued_versions v (p # rest))))"
  proof (cases "set (issued_versions v rest) = {}")
    case True
    then show ?thesis using p by (simp add: issued_versions_def)
  next
    case False
    then show ?thesis using p
      by (simp add: issued_versions_def max.assoc max.left_commute)
  qed
  finally show ?case .
qed

lemma complete_all_append: "complete_all v (xs @ ys) = complete_all (complete_all v xs) ys"
  by (induction xs arbitrary: v) auto

lemma complete_all_monotone: "committed_version v \<le> committed_version (complete_all v cs)"
  by (simp add: complete_all_max)

text \<open>
  So every view reached from a newly constructed one is in good order: the entry points do
  not touch the display, and a completion keeps the order.
\<close>

lemma resume_view_ok:
  assumes "view_ok v"
  shows "view_ok (snd (updateMapToState_resume v c outcome))"
proof (cases outcome)
  case (Inl e)
  with assms show ?thesis by (simp add: updateMapToState_resume_def)
next
  case (Inr ms)
  have "view_ok (v\<lparr>state := call_state c\<rparr>)"
    using assms by (simp add: view_ok_def)
  then have ok: "view_ok (snd (updateMapMarkers (v\<lparr>state := call_state c\<rparr>) ms))"
    by (rule updateMapMarkers_view_ok)
  show ?thesis
    using assms ok Inr
    by (auto simp: updateMapToState_resume_def Let_def autoFitMapToMarkers_def setView_def
          fitBounds_def view_ok_def split: prod.splits option.splits)
qed

lemma constructor_view_ok: "view_ok (constructor stg k)"
  by (simp add: view_ok_def drawn_ok_def constructor_def)

lemma complete_all_view_ok: "view_ok v \<Longrightarrow> view_ok (complete_all v cs)"
  by (induction cs arbitrary: v) (auto simp: resume_view_ok)

text \<open>
  C1, as the code has it. A completion whose state carries a version below the committed
  one returns with the view untouched; no completion, whatever its outcome, lowers the
  committed version, and it never goes down along a run of completions; after any list of
  outstanding calls has completed, in the order of the list, the committed version is the
  greatest among the version committed before and the versions of the calls; so two lists
  with the same versions end at the same version.
\<close>

theorem complete_all_version:
  "(version (deref v (call_state c)) < committed_version v \<longrightarrow>
      updateMapToState_resume v c (Inr ms) = (None, v)) \<and>
   committed_version v \<le> committed_version (snd (updateMapToState_resume v c outcome)) \<and>
   committed_version (complete_all v xs) \<le> committed_version (complete_all v (xs @ ys)) \<and>
   committed_version (complete_all v cs) =
     Max (insert (committed_version v) (set (issued_versions v cs))) \<and>
   (set (issued_versions v cs') = set (issued_versions v cs) \<longrightarrow>
      committed_version (complete_all v cs') = committed_version (complete_all v cs))"
  by (simp add: resume_discards resume_monotone complete_all_append complete_all_monotone
        complete_all_max)

text \<open>
  A restore issued after version \<open>101\<close> was committed is dropped. A zoom to a location
  (version \<open>1\<close>) and a restore (version \<open>100\<close>), outstanding together, end at version \<open>100\<close> in
  either order.
\<close>

theorem complete_all_version_witness:
  "version (deref (snd second_restore) (call_state restore_call))
     < committed_version (snd second_restore) \<and>
   updateMapToState_resume (snd second_restore) restore_call (Inr []) = (None, snd second_restore) \<and>
   fst slow_zoom = Inr zoom_call \<and> fst both_outstanding = Some (Inr again_call) \<and>
   issued_versions (snd both_outstanding) [(zoom_call, []), (again_call, [])] = [1, 100] \<and>
   set (issued_versions (snd both_outstanding) [(again_call, []), (zoom_call, [])])
     = set (issued_versions (snd both_outstanding) [(zoom_call, []), (again_call, [])]) \<and>
   committed_version (complete_all (snd both_outstanding) [(again_call, []), (zoom_call, [])])
     = committed_version (complete_all (snd both_outstanding) [(zoom_call, []), (again_call, [])]) \<and>
   committed_version (complete_all (snd both_outstanding) [(zoom_call, []), (again_call, [])]) = 100"
proof -
  have lower: "version (deref (snd second_restore) (call_state restore_call))
                 < committed_version (snd second_restore)"
    by code_simp
  have calls: "fst slow_zoom = Inr zoom_call" "fst both_outstanding = Some (Inr again_call)"
    by code_simp+
  have issued: "issued_versions (snd both_outstanding) [(zoom_call, []), (again_call, [])] = [1, 100]"
    "issued_versions (snd both_outstanding) [(again_call, []), (zoom_call, [])] = [100, 1]"
    by code_simp+
  then have same: "set (issued_versions (snd both_outstanding) [(again_call, []), (zoom_call, [])])
      = set (issued_versions (snd both_outstanding) [(zoom_call, []), (again_call, [])])"
    by auto
  have final: "committed_version (complete_all (snd both_outstanding)
      [(zoom_call, []), (again_call, [])]) = 100"
    by code_simp
  from complete_all_version [of "snd second_restore" restore_call "[]"] lower
  have "updateMapToState_resume (snd second_restore) restore_call (Inr []) = (None, snd second_restore)"
    by blast
  moreover from complete_all_version [of "snd both_outstanding" _ _ _ _ _
      "[(zoom_call, []), (again_call, [])]" "[(again_call, []), (zoom_call, [])]"] same
  have "committed_version (complete_all (snd both_outstanding) [(again_call, []), (zoom_call, [])])
      = committed_version (complete_all (snd both_outstanding) [(zoom_call, []), (again_call, [])])"
    by blast
  ultimately show ?thesis using lower calls issued(1) same final by blast
qed

text \<open>
  The final version is not always the greatest issued one: with version \<open>101\<close> committed
  and one restore outstanding, which carries version \<open>100\<close>, the run ends at \<open>101\<close>.
\<close>

theorem final_version_not_max_issued:
  "fst second_restore = Some (Inr restore_call) \<and>
   committed_version (complete_all (snd second_restore) [(restore_call, [])]) = 101 \<and>
   Max (set (issued_versions (snd second_restore) [(restore_call, [])])) = 100"
  by code_simp

text \<open>
  C2, as the code has it. A completion whose state carries a version strictly below the
  committed one leaves the committed state, and every state object, as it was. A successful
  build whose state carries a version equal to or above the committed one makes that state
  the committed one.
\<close>

theorem resume_replaces_iff:
  "(version (deref v (call_state c)) < committed_version v \<longrightarrow>
      state (snd (updateMapToState_resume v c outcome)) = state v \<and>
      store (snd (updateMapToState_resume v c outcome)) = store v) \<and>
   (committed_version v \<le> version (deref v (call_state c)) \<longrightarrow>
      state (snd (updateMapToState_resume v c (Inr ms))) = call_state c)"
proof -
  have "state (snd (updateMapToState_resume v c outcome)) = state v"
    if "version (deref v (call_state c)) < committed_version v"
    using that by (cases outcome) (simp_all add: resume_rejected resume_discards)
  moreover have "state (snd (updateMapToState_resume v c (Inr ms))) = call_state c"
    if "committed_version v \<le> version (deref v (call_state c))"
    using that by (intro resume_commits) simp
  ultimately show ?thesis by (simp add: resume_store)
qed

text \<open>
  The restore after version \<open>101\<close> leaves the committed state; the restore after a restore,
  both at version \<open>100\<close>, replaces it.
\<close>

theorem resume_replaces_iff_witness:
  "version (deref (snd second_restore) (call_state restore_call)) < committed_version (snd second_restore) \<and>
   state (snd (updateMapToState_resume (snd second_restore) restore_call (Inr []))) = state (snd second_restore) \<and>
   committed_version (snd twice_restore) \<le> version (deref (snd twice_restore) (call_state again_call)) \<and>
   state (snd (updateMapToState_resume (snd twice_restore) again_call (Inr []))) = call_state again_call"
proof -
  have lower: "version (deref (snd second_restore) (call_state restore_call))
                 < committed_version (snd second_restore)"
    by code_simp
  have equal: "committed_version (snd twice_restore)
                 \<le> version (deref (snd twice_restore) (call_state again_call))"
    by code_simp
  from resume_replaces_iff [of "snd second_restore" restore_call "Inr []"] lower
  have "state (snd (updateMapToState_resume (snd second_restore) restore_call (Inr [])))
          = state (snd second_restore)"
    by blast
  moreover from resume_replaces_iff [of "snd twice_restore" again_call _ "[]"] equal
  have "state (snd (updateMapToState_resume (snd twice_restore) again_call (Inr [])))
          = call_state again_call"
    by blast
  ultimately show ?thesis using lower equal by blast
qed

text \<open>
  An equal version does overwrite: after a restore is committed at version \<open>100\<close> (object
  \<open>1\<close>, no tags), a second restore, also at version \<open>100\<close> (object \<open>2\<close>, tag \<open>#x\<close>), completes
  and becomes the committed state.
\<close>

theorem equal_version_overwrites:
  "fst twice_restore = Some (Inr again_call) \<and>
   version (deref (snd twice_restore) (call_state again_call)) = 100 \<and>
   committed_version (snd twice_restore) = 100 \<and>
   state (snd twice_restore) = 1 \<and>
   state (snd (updateMapToState_resume (snd twice_restore) again_call (Inr []))) = 2 \<and>
   tags (deref (snd twice_restore) 1) = [] \<and>
   tags (deref (snd twice_restore) 2) = [''#x'']"
  by code_simp

text \<open>
  C3. The version that \<open>setState\<close> assigns is the constant \<open>100\<close>. After a restore (committed
  at \<open>100\<close>) and one zoom to a location (committed at \<open>101\<close>), the state of a second restore
  gets version \<open>100\<close>, which is below the committed version, and its completion is dropped:
  the view stays as it was.
\<close>

theorem restore_loses_after_101:
  "committed_version after_restore = 100 \<and>
   committed_version after_zoom = 101 \<and>
   fst second_restore = Some (Inr restore_call) \<and>
   version (deref (snd second_restore) (call_state restore_call)) = 100 \<and>
   committed_version (snd second_restore) = 101 \<and>
   updateMapToState_resume (snd second_restore) restore_call (Inr []) = (None, snd second_restore)"
  by code_simp

text \<open>
  C6. The tag box handler parses the text, dropping empty tokens, writes the tags into the
  committed object and starts the update with that same object; the version is not
  incremented. On the view that just opened, at version \<open>0\<close>, the edit \<open>#x\<close> leaves version
  \<open>0\<close>, and so does a second edit. When the two calls then complete in the opposite order,
  both are committed: the tags are those of the second edit (none, which asks for all three
  notes) and the drawn markers are those built for the first (the marker of \<open>x\<close> alone).
\<close>

theorem tag_edit_keeps_version:
  "committed_version opened = 0 \<and>
   fst first_edit = Inr first_edit_call \<and>
   call_state first_edit_call = state (snd first_edit) \<and>
   tags (deref (snd first_edit) (state (snd first_edit))) = [''#x''] \<and>
   committed_version (snd first_edit) = 0 \<and>
   tags (deref (snd (tagsBox_onChange ex_app opened '',#x,,#y,'')) 0) = [''#x'', ''#y''] \<and>
   fst second_edit = Inr second_edit_call \<and>
   committed_version (snd second_edit) = 0 \<and>
   tags (deref edits_crossed (state edits_crossed)) = [] \<and>
   map fst (display_markers edits_crossed) = [''x'']"
  by code_simp

text \<open>
  C8. A call whose query throws returns that error and leaves the view exactly as it was;
  so does a completion whose builder rejected; hence a whole call whose builder rejects
  leaves the view as it was, committed state, state objects, drawn map and surface
  included.
\<close>

theorem updateMapToState_fails_soft:
  "(getFileListByQuery app (tags (deref v r)) = Inl e \<longrightarrow>
      updateMapToState app v r autoFit outcome = (Some e, v)) \<and>
   updateMapToState_resume v c (Inl e) = (Some e, v) \<and>
   (\<exists>e'. updateMapToState app v r autoFit (Inl e) = (Some e', v))"
  by (auto simp: updateMapToState_def updateMapToState_begin_def resume_rejected
        split: sum.splits)

text \<open>On a host whose vault throws, a call on the view with two drawn markers changes nothing.\<close>

theorem updateMapToState_fails_soft_witness:
  "getFileListByQuery ex_app_down (tags (deref ex_view 0)) = Inl (Rejected ''vault'') \<and>
   updateMapToState ex_app_down ex_view 0 True (Inr []) = (Some (Rejected ''vault''), ex_view)"
proof -
  have q: "getFileListByQuery ex_app_down (tags (deref ex_view 0)) = Inl (Rejected ''vault'')"
    by (simp add: getFileListByQuery_def ex_app_down_def)
  with updateMapToState_fails_soft [of ex_app_down ex_view 0 "Rejected ''vault''" True "Inr []"]
  show ?thesis by blast
qed

text \<open>
  The \<open>zoomend\<close> and \<open>moveend\<close> handlers leave the version and the tags of the committed
  state, and the whole display, as they are.
\<close>

lemma map_on_zoomend_keeps:
  "committed_version (map_on_zoomend v zoom) = committed_version v \<and>
   tags (deref (map_on_zoomend v zoom) (state (map_on_zoomend v zoom))) = tags (deref v (state v)) \<and>
   display_map (map_on_zoomend v zoom) = display_map v \<and>
   display_markers (map_on_zoomend v zoom) = display_markers v"
  by (cases "state v < length (store v)")
    (simp_all add: map_on_zoomend_def committed_version_def deref_def list_update_beyond)

lemma map_on_moveend_keeps:
  "committed_version (map_on_moveend v center) = committed_version v \<and>
   tags (deref (map_on_moveend v center) (state (map_on_moveend v center))) = tags (deref v (state v)) \<and>
   display_map (map_on_moveend v center) = display_map v \<and>
   display_markers (map_on_moveend v center) = display_markers v"
  by (cases "state v < length (store v)")
    (simp_all add: map_on_moveend_def committed_version_def deref_def list_update_beyond)




end
